theory Spec2Isabelle
  imports Main "HOL-Library.Word"
begin

unbundle bit_operations_syntax

section \<open>Data model\<close>

text \<open>
  The interface \<open>BlockHeader\<close> of \<open>src/index.ts\<close>. A JavaScript string is kept as a HOL
  \<open>string\<close>; the block number plays no part in the Merkle logic and is kept as an \<open>int\<close>.
\<close>

record BlockHeader =
  number :: int
  hash :: string
  parentHash :: string
  stateRoot :: string
  extrinsicsRoot :: string

text \<open>A Node \<open>Buffer\<close> is a sequence of bytes.\<close>

type_synonym buffer = "8 word list"

text \<open>
  The value returned by \<open>crypto.SHA256\<close> is a crypto-js word array: big-endian 32-bit words
  of which the first \<open>sigBytes\<close> bytes are significant.
\<close>

record WordArray =
  words :: "32 word list"
  sigBytes :: nat

text \<open>
  The digest function itself (\<open>crypto.SHA256\<close>) belongs to the crypto-js package and is a
  parameter \<open>sha\<close> of every operation below: a function from the bytes hashed to the word
  array returned. A HOL character is a byte, so a HOL string already is the byte sequence
  that crypto-js hashes for a string argument.
\<close>

type_synonym sha256 = "buffer \<Rightarrow> WordArray"

definition utf8 :: "string \<Rightarrow> buffer" where
  "utf8 s = map (\<lambda>c. of_nat (of_char c)) s"

subsection \<open>Hex encoding and decoding\<close>

text \<open>
  \<open>wordArray.toString(crypto.enc.Hex)\<close>: for each of the \<open>sigBytes\<close> bytes, the byte
  \<open>(words[i >>> 2] >>> (24 - (i % 4) * 8)) & 0xff\<close> is written as two lower-case hex digits.
  A word index past the end of \<open>words\<close> reads \<open>undefined\<close>, which the shift turns into 0.
\<close>

definition byteAt :: "WordArray \<Rightarrow> nat \<Rightarrow> 8 word" where
  "byteAt w i =
     (if i div 4 < length (words w)
      then ucast (drop_bit (24 - (i mod 4) * 8) (words w ! (i div 4)) AND 0xff)
      else 0)"

definition hexDigit :: "nat \<Rightarrow> char" where
  "hexDigit n = (''0123456789abcdef'') ! (n mod 16)"

definition Hex_stringify :: "WordArray \<Rightarrow> string" where
  "Hex_stringify w =
     concat (map (\<lambda>i. [hexDigit (unat (byteAt w i) div 16), hexDigit (unat (byteAt w i) mod 16)])
                 [0 ..< sigBytes w])"

text \<open>
  \<open>Buffer.from(s, "hex")\<close>: two hex digits make one byte; decoding stops at the first pair
  that is not two hex digits, and a trailing single character is dropped.
\<close>

definition hexValue :: "char \<Rightarrow> nat option" where
  "hexValue c =
     (let n = of_char c :: nat in
      if 48 \<le> n \<and> n \<le> 57 then Some (n - 48)
      else if 97 \<le> n \<and> n \<le> 102 then Some (n - 87)
      else if 65 \<le> n \<and> n \<le> 70 then Some (n - 55)
      else None)"

fun Buffer_from_hex :: "string \<Rightarrow> buffer" where
  "Buffer_from_hex (a # b # cs) =
     (case (hexValue a, hexValue b) of
        (Some x, Some y) \<Rightarrow> of_nat (16 * x + y) # Buffer_from_hex cs
      | _ \<Rightarrow> [])"
| "Buffer_from_hex _ = []"

section \<open>The Merkle tree\<close>

datatype position = Left | Right

type_synonym proof_element = "position \<times> buffer"

record MerkleTree =
  leaves :: "buffer list"
  layers :: "buffer list list"

text \<open>
  Modelled from the spec: the class \<open>MerkleTree\<close> is imported from the merkletreejs package,
  whose code is not part of \<open>src/\<close>. The conversion of a leaf handed to the constructor keeps
  the leaf value (section 4.2, step 1: level 0 is the input leaf values, in arrival order):
  the digest bytes of the word array.
\<close>

definition bufferify :: "WordArray \<Rightarrow> buffer" where
  "bufferify w = map (byteAt w) [0 ..< sigBytes w]"

text \<open>
  Modelled from the spec: the parent digest is \<open>digest(left \<parallel> right)\<close>, the concatenation
  in that order (section 4.2, step 3), with the digest function handed to the constructor.
\<close>

definition hashFn :: "sha256 \<Rightarrow> buffer \<Rightarrow> buffer" where
  "hashFn sha b = bufferify (sha b)"

text \<open>
  Modelled from the spec: one level of the construction (section 4.2, step 2). Adjacent nodes
  are paired left to right; the final node of a level of odd length is paired with itself.
\<close>

fun pairLevel :: "sha256 \<Rightarrow> buffer list \<Rightarrow> buffer list" where
  "pairLevel sha (l # r # xs) = hashFn sha (l @ r) # pairLevel sha xs"
| "pairLevel sha [x] = [hashFn sha (x @ x)]"
| "pairLevel sha [] = []"

text \<open>
  Modelled from the spec: the levels are built bottom-up until one node remains
  (section 4.2, step 4).
\<close>

function createHashes :: "sha256 \<Rightarrow> buffer list \<Rightarrow> buffer list list" where
  "createHashes sha nodes =
     (if length nodes \<le> 1 then [nodes]
      else nodes # createHashes sha (pairLevel sha nodes))"
  by pat_completeness auto
termination
proof (relation "measure (\<lambda>(sha, nodes). length nodes)")
  show "wf (measure (\<lambda>(sha :: sha256, nodes :: buffer list). length nodes))"
    by simp
next
  fix sha :: sha256 and nodes :: "buffer list"
  assume "\<not> length nodes \<le> 1"
  moreover have "length (pairLevel sha xs) = (length xs + 1) div 2" for xs
    by (induction sha xs rule: pairLevel.induct) simp_all
  ultimately show "((sha, pairLevel sha nodes), (sha, nodes))
      \<in> measure (\<lambda>(sha, nodes). length nodes)"
    by simp
qed

declare createHashes.simps [simp del]

definition MerkleTree_new :: "sha256 \<Rightarrow> WordArray list \<Rightarrow> MerkleTree" where
  "MerkleTree_new sha ls =
     \<lparr>leaves = map bufferify ls, layers = createHashes sha (map bufferify ls)\<rparr>"

text \<open>
  Modelled from the spec: the root is the one node of the top level (section 4.2); a tree
  without leaves has the empty buffer as its root.
\<close>

definition getRoot :: "MerkleTree \<Rightarrow> buffer" where
  "getRoot t =
     (case layers t of
        [] \<Rightarrow> []
      | _ # _ \<Rightarrow> (case last (layers t) of [] \<Rightarrow> [] | r # _ \<Rightarrow> r))"

text \<open>
  Modelled from the spec: the index of a leaf is its position in level 0 (section 4.2,
  step 1), the first one holding the value; \<open>-1\<close> when the value is not a leaf, which is
  what \<open>generateProof\<close> and \<open>verifyProof\<close> test for.
\<close>

fun indexOf :: "buffer list \<Rightarrow> buffer \<Rightarrow> nat option" where
  "indexOf [] x = None"
| "indexOf (y # ys) x = (if y = x then Some 0 else map_option Suc (indexOf ys x))"

definition getLeafIndex :: "MerkleTree \<Rightarrow> buffer \<Rightarrow> int" where
  "getLeafIndex t leaf = (case indexOf (leaves t) leaf of None \<Rightarrow> -1 | Some i \<Rightarrow> int i)"

text \<open>
  Modelled from the spec: the walk from level 0 to the root (section 4.4), emitting at each
  level below the root the sibling digest and the side the sibling is on. The final node of
  a level of odd length has itself as its sibling, on the right, as in the construction.
\<close>

fun proofFrom :: "buffer list list \<Rightarrow> nat \<Rightarrow> proof_element list" where
  "proofFrom (l # l' # ls) i =
     (if odd i then (Left, l ! (i - 1))
      else if i + 1 < length l then (Right, l ! (i + 1))
      else (Right, l ! i)) # proofFrom (l' # ls) (i div 2)"
| "proofFrom _ i = []"

definition getProof :: "MerkleTree \<Rightarrow> buffer \<Rightarrow> proof_element list" where
  "getProof t leaf =
     (case indexOf (leaves t) leaf of None \<Rightarrow> [] | Some i \<Rightarrow> proofFrom (layers t) i)"

text \<open>
  Modelled from the spec: the fold of a proof (section 4.5), from the leaf digest upwards,
  \<open>digest(current \<parallel> sibling)\<close> or \<open>digest(sibling \<parallel> current)\<close> according to the side, and
  the comparison of the folded value with the root.
\<close>

fun foldProof :: "sha256 \<Rightarrow> proof_element list \<Rightarrow> buffer \<Rightarrow> buffer" where
  "foldProof sha [] cur = cur"
| "foldProof sha ((Right, sib) # ps) cur = foldProof sha ps (hashFn sha (cur @ sib))"
| "foldProof sha ((Left, sib) # ps) cur = foldProof sha ps (hashFn sha (sib @ cur))"

definition verify :: "sha256 \<Rightarrow> proof_element list \<Rightarrow> buffer \<Rightarrow> buffer \<Rightarrow> bool" where
  "verify sha proof leaf root = (foldProof sha proof leaf = root)"

section \<open>The class \<open>MerkleFactory\<close>\<close>

text \<open>
  The fields of the class. \<open>batchSize\<close> is a JavaScript number; it is compared with a length
  only, and it ranges over the integers here, zero and the negative ones included.
\<close>

record MerkleFactory =
  batchSize :: int
  headers :: "BlockHeader list"
  merkleTrees :: "MerkleTree list"

text \<open>The constructor stores its argument; the two lists start empty.\<close>

definition MerkleFactory_new :: "int \<Rightarrow> MerkleFactory" where
  "MerkleFactory_new b = \<lparr>batchSize = b, headers = [], merkleTrees = []\<rparr>"

text \<open>
  \<open>createMerkleTree\<close>: the leaves are \<open>crypto.SHA256(h.hash)\<close> of the buffered headers; the
  tree is pushed onto \<open>merkleTrees\<close>. The line written to the console is left out.
\<close>

definition createMerkleTree :: "sha256 \<Rightarrow> MerkleFactory \<Rightarrow> MerkleFactory" where
  "createMerkleTree sha s =
     (let leaves = map (\<lambda>h. sha (utf8 (hash h))) (headers s);
          tree = MerkleTree_new sha leaves
      in s\<lparr>merkleTrees := merkleTrees s @ [tree]\<rparr>)"

definition addHeader :: "sha256 \<Rightarrow> MerkleFactory \<Rightarrow> BlockHeader \<Rightarrow> MerkleFactory" where
  "addHeader sha s header =
     (let s1 = s\<lparr>headers := headers s @ [header]\<rparr>
      in if int (length (headers s1)) \<ge> batchSize s1
         then (createMerkleTree sha s1)\<lparr>headers := []\<rparr>
         else s1)"

text \<open>\<open>getMerkleTree\<close>: the tree at an index, or \<open>null\<close>.\<close>

definition getMerkleTree :: "MerkleFactory \<Rightarrow> int \<Rightarrow> MerkleTree option" where
  "getMerkleTree s i =
     (if 0 \<le> i \<and> nat i < length (merkleTrees s) then Some (merkleTrees s ! nat i) else None)"

text \<open>
  The leaf computed, by the same expression, at the head of \<open>generateProof\<close> and of
  \<open>verifyProof\<close>: \<open>Buffer.from(crypto.SHA256(header.hash).toString(crypto.enc.Hex), "hex")\<close>.
\<close>

definition proofLeaf :: "sha256 \<Rightarrow> BlockHeader \<Rightarrow> buffer" where
  "proofLeaf sha header = Buffer_from_hex (Hex_stringify (sha (utf8 (hash header))))"

text \<open>\<open>this.merkleTrees.find((tree) => tree.getLeafIndex(leaf) !== -1)\<close>.\<close>

definition findTree :: "MerkleFactory \<Rightarrow> buffer \<Rightarrow> MerkleTree option" where
  "findTree s leaf = find (\<lambda>tree. getLeafIndex tree leaf \<noteq> -1) (merkleTrees s)"

definition generateProof :: "sha256 \<Rightarrow> MerkleFactory \<Rightarrow> BlockHeader \<Rightarrow> proof_element list" where
  "generateProof sha s header =
     (let leaf = proofLeaf sha header
      in case findTree s leaf of
           None \<Rightarrow> []
         | Some tree \<Rightarrow> getProof tree leaf)"

definition verifyProof :: "sha256 \<Rightarrow> MerkleFactory \<Rightarrow> proof_element list \<Rightarrow> BlockHeader \<Rightarrow> bool" where
  "verifyProof sha s proof header =
     (let leaf = proofLeaf sha header
      in case findTree s leaf of
           None \<Rightarrow> False
         | Some tree \<Rightarrow> verify sha proof leaf (getRoot tree))"

text \<open>A run of the factory: the headers of a list are added in order.\<close>

definition addHeaders :: "sha256 \<Rightarrow> MerkleFactory \<Rightarrow> BlockHeader list \<Rightarrow> MerkleFactory" where
  "addHeaders sha s hs = foldl (addHeader sha) s hs"

text \<open>The tree that \<open>createMerkleTree\<close> builds from a buffer of headers.\<close>

definition batchTree :: "sha256 \<Rightarrow> BlockHeader list \<Rightarrow> MerkleTree" where
  "batchTree sha hs = MerkleTree_new sha (map (\<lambda>h. sha (utf8 (hash h))) hs)"

subsection \<open>Concrete inputs\<close>

text \<open>
  A small stand-in for the digest function, and four headers, on which the theorems below are
  instantiated: the word array holds the sum of the bytes hashed.
\<close>

definition toyDigest :: sha256 where
  "toyDigest b = \<lparr>words = [of_nat (sum_list (map unat b))], sigBytes = 4\<rparr>"

definition mkHeader :: "int \<Rightarrow> string \<Rightarrow> BlockHeader" where
  "mkHeader n h = \<lparr>number = n, hash = h, parentHash = [], stateRoot = [], extrinsicsRoot = []\<rparr>"

definition headerA :: BlockHeader where "headerA = mkHeader 1 ''a''"
definition headerB :: BlockHeader where "headerB = mkHeader 2 ''b''"
definition headerC :: BlockHeader where "headerC = mkHeader 3 ''c''"
definition headerD :: BlockHeader where "headerD = mkHeader 4 ''d''"

section \<open>Hex encoding round trip\<close>

lemma hexDigits_all: "list_all (\<lambda>k. hexValue (hexDigit k) = Some k) [0 ..< 16]"
  by code_simp

lemma hexDigit_cases: "n < 16 \<Longrightarrow> hexValue (hexDigit n) = Some n"
  using hexDigits_all by (simp add: list_all_iff)

lemma hexValue_hexDigit: "hexValue (hexDigit n) = Some (n mod 16)"
proof -
  have "hexDigit n = hexDigit (n mod 16)" by (simp add: hexDigit_def)
  then show ?thesis using hexDigit_cases[of "n mod 16"] by simp
qed

lemma Buffer_from_hex_pairs:
  "Buffer_from_hex (concat (map (\<lambda>i. [hexDigit (unat (f i) div 16), hexDigit (unat (f i) mod 16)]) js))
     = map f js"
proof (induction js)
  case Nil
  show ?case by simp
next
  case (Cons j js)
  have "(of_nat (16 * (unat (f j) div 16 mod 16) + unat (f j) mod 16 mod 16) :: 8 word) = f j"
  proof -
    have "unat (f j) < 256" using unsigned_less[of "f j", where ?'a = nat] by simp
    then have "unat (f j) div 16 mod 16 = unat (f j) div 16" by simp
    then show ?thesis by simp
  qed
  with Cons show ?case by (simp add: hexValue_hexDigit)
qed

lemma hex_roundtrip: "Buffer_from_hex (Hex_stringify w) = bufferify w"
  unfolding Hex_stringify_def bufferify_def by (rule Buffer_from_hex_pairs)

section \<open>Construction, proof extraction and the fold\<close>

lemma length_pairLevel: "length (pairLevel sha xs) = (length xs + 1) div 2"
  by (induction sha xs rule: pairLevel.induct) simp_all

lemma pairLevel_nth:
  "i < length l \<Longrightarrow>
   pairLevel sha l ! (i div 2) =
     (if odd i then hashFn sha (l ! (i - 1) @ l ! i)
      else if i + 1 < length l then hashFn sha (l ! i @ l ! (i + 1))
      else hashFn sha (l ! i @ l ! i))"
proof (induction sha l arbitrary: i rule: pairLevel.induct)
  case (1 sha l r xs)
  show ?case
  proof (cases i)
    case 0
    then show ?thesis by simp
  next
    case (Suc k)
    show ?thesis
    proof (cases k)
      case 0
      with Suc show ?thesis by simp
    next
      case (Suc j)
      with \<open>i = Suc k\<close> have i: "i = Suc (Suc j)" by simp
      with 1(2) have "j < length xs" by simp
      from 1(1)[OF this] show ?thesis by (auto simp: i nth_Cons')
    qed
  qed
next
  case (2 sha x)
  then show ?case by simp
next
  case (3 sha)
  then show ?case by simp
qed

lemma foldProof_step:
  assumes "i < length l"
  shows "foldProof sha ((if odd i then (Left, l ! (i - 1))
      else if i + 1 < length l then (Right, l ! (i + 1))
      else (Right, l ! i)) # ps) (l ! i) = foldProof sha ps (pairLevel sha l ! (i div 2))"
  using pairLevel_nth[OF assms, of sha] by simp

lemma createHashes_nonempty: "createHashes sha xs \<noteq> []"
  by (subst createHashes.simps) simp

lemma proof_folds_to_top:
  "i < length xs \<Longrightarrow>
   foldProof sha (proofFrom (createHashes sha xs) i) (xs ! i) = hd (last (createHashes sha xs))"
proof (induction sha xs arbitrary: i rule: createHashes.induct)
  case (1 sha nodes)
  show ?case
  proof (cases "length nodes \<le> 1")
    case True
    with 1(2) have "i = 0" by simp
    with True 1(2) show ?thesis
      by (subst (1 2) createHashes.simps) (simp add: hd_conv_nth)
  next
    case False
    have idx: "i div 2 < length (pairLevel sha nodes)"
      using 1(2) by (simp add: length_pairLevel)
    obtain l' ls where ch: "createHashes sha (pairLevel sha nodes) = l' # ls"
      using createHashes_nonempty by (cases "createHashes sha (pairLevel sha nodes)") auto
    have "foldProof sha (proofFrom (createHashes sha nodes) i) (nodes ! i)
        = foldProof sha (proofFrom (l' # ls) (i div 2)) (pairLevel sha nodes ! (i div 2))"
      using False ch foldProof_step[OF 1(2), of sha]
      by (subst createHashes.simps) simp
    also have "\<dots> = hd (last (createHashes sha (pairLevel sha nodes)))"
      using 1(1)[OF False idx] ch by simp
    also have "\<dots> = hd (last (createHashes sha nodes))"
      using False ch by (subst (2) createHashes.simps) simp
    finally show ?thesis .
  qed
qed

lemma last_createHashes: "xs \<noteq> [] \<Longrightarrow> length (last (createHashes sha xs)) = 1"
proof (induction sha xs rule: createHashes.induct)
  case (1 sha nodes)
  show ?case
  proof (cases "length nodes \<le> 1")
    case True
    with 1(2) have "length nodes = 1" by (cases nodes) auto
    with True show ?thesis by (subst createHashes.simps) simp
  next
    case False
    then have "pairLevel sha nodes \<noteq> []"
      using length_pairLevel[of sha nodes] by auto
    from 1(1)[OF False this] False show ?thesis
      by (subst createHashes.simps) (simp add: createHashes_nonempty)
  qed
qed

lemma getRoot_new:
  "ws \<noteq> [] \<Longrightarrow>
   getRoot (MerkleTree_new sha ws) = hd (last (createHashes sha (map bufferify ws)))"
proof -
  assume "ws \<noteq> []"
  then have "length (last (createHashes sha (map bufferify ws))) = 1"
    by (intro last_createHashes) simp
  then obtain r where lr: "last (createHashes sha (map bufferify ws)) = [r]"
    by (cases "last (createHashes sha (map bufferify ws))") auto
  obtain c cs where ch: "createHashes sha (map bufferify ws) = c # cs"
    using createHashes_nonempty by (cases "createHashes sha (map bufferify ws)") auto
  have "getRoot (MerkleTree_new sha ws) =
      (case last (createHashes sha (map bufferify ws)) of [] \<Rightarrow> [] | r # _ \<Rightarrow> r)"
    unfolding getRoot_def MerkleTree_new_def by (simp only: MerkleTree.simps ch list.case)
  then show ?thesis by (simp only: lr list.case list.sel)
qed

lemma indexOf_Some: "indexOf xs x = Some i \<Longrightarrow> i < length xs \<and> xs ! i = x"
  by (induction xs arbitrary: i) (auto split: if_splits)

lemma indexOf_None: "indexOf xs x = None \<longleftrightarrow> x \<notin> set xs"
  by (induction xs) auto

lemma getLeafIndex_absent: "getLeafIndex t leaf = -1 \<longleftrightarrow> leaf \<notin> set (leaves t)"
proof (cases "indexOf (leaves t) leaf")
  case None
  then show ?thesis by (simp add: getLeafIndex_def indexOf_None[symmetric])
next
  case (Some i)
  then have "leaf \<in> set (leaves t)" using indexOf_None[of "leaves t" leaf] by simp
  with Some show ?thesis by (simp add: getLeafIndex_def)
qed

lemma tree_roundtrip:
  assumes "leaf \<in> set (leaves (MerkleTree_new sha ws))"
  shows "verify sha (getProof (MerkleTree_new sha ws) leaf) leaf (getRoot (MerkleTree_new sha ws))"
proof -
  let ?ls = "map bufferify ws"
  from assms have ne: "ws \<noteq> []" by (auto simp: MerkleTree_new_def)
  from assms obtain i where i: "indexOf ?ls leaf = Some i"
    using indexOf_None[of ?ls leaf] by (auto simp: MerkleTree_new_def)
  then have "i < length ?ls" "?ls ! i = leaf" using indexOf_Some by blast+
  with proof_folds_to_top[of i ?ls sha]
  have "foldProof sha (proofFrom (createHashes sha ?ls) i) leaf = hd (last (createHashes sha ?ls))"
    by simp
  moreover have "getProof (MerkleTree_new sha ws) leaf = proofFrom (createHashes sha ?ls) i"
    using i by (simp add: getProof_def MerkleTree_new_def)
  ultimately show ?thesis
    by (simp add: verify_def getRoot_new[OF ne])
qed

lemma find_first:
  "find P (pre @ t # post) = Some t" if "\<forall>u\<in>set pre. \<not> P u" "P t"
  using that by (induction pre) auto

lemma addHeaders_snoc:
  "addHeaders sha s (hs @ [h]) = addHeader sha (addHeaders sha s hs) h"
  by (simp add: addHeaders_def)

section \<open>The states of a run\<close>

lemma batch_cmp: "(b \<le> int (Suc m)) = (nat (max 1 b) \<le> Suc m)"
  by (cases "b \<le> 1") (simp_all add: max_def, linarith+)

lemma run_state:
  fixes b :: int
  defines "n \<equiv> nat (max 1 b)"
  shows "addHeaders sha (MerkleFactory_new b) hs =
     \<lparr>batchSize = b,
      headers = drop (length hs div n * n) hs,
      merkleTrees = map (\<lambda>k. batchTree sha (take n (drop (k * n) hs))) [0 ..< length hs div n]\<rparr>"
proof (induction hs rule: rev_induct)
  case Nil
  show ?case by (simp add: addHeaders_def MerkleFactory_new_def)
next
  case (snoc h hs)
  have n: "0 < n" by (simp add: n_def)
  let ?q = "length hs div n" and ?r = "length hs mod n"
  have len: "length (drop (?q * n) hs) = ?r"
    by (simp add: minus_div_mult_eq_mod)
  have cmp: "(b \<le> int (length (drop (?q * n) hs @ [h]))) = (n \<le> Suc ?r)"
  proof -
    have "length (drop (?q * n) hs @ [h]) = Suc ?r" using len by simp
    then show ?thesis unfolding n_def by (simp only: batch_cmp)
  qed
  have old: "\<And>k. k < ?q \<Longrightarrow> take n (drop (k * n) (hs @ [h])) = take n (drop (k * n) hs)"
  proof -
    fix k assume "k < ?q"
    then have "Suc k \<le> ?q" by simp
    then have "Suc k * n \<le> ?q * n" by (rule mult_le_mono1)
    also have "\<dots> \<le> length hs" by simp
    finally have "k * n + n \<le> length hs" by simp
    then show "take n (drop (k * n) (hs @ [h])) = take n (drop (k * n) hs)" by simp
  qed
  have dm: "?q * n + ?r = length hs" by simp
  have qn: "?q * n \<le> length hs" by simp
  have trees: "map (\<lambda>k. batchTree sha (take n (drop (k * n) (hs @ [h])))) [0 ..< ?q]
      = map (\<lambda>k. batchTree sha (take n (drop (k * n) hs))) [0 ..< ?q]"
  proof (rule map_cong[OF refl])
    fix k assume "k \<in> set [0 ..< ?q]"
    then have "k < ?q" by simp
    then show "batchTree sha (take n (drop (k * n) (hs @ [h])))
        = batchTree sha (take n (drop (k * n) hs))"
      by (simp only: old)
  qed
  have step: "addHeaders sha (MerkleFactory_new b) (hs @ [h]) =
      (if b \<le> int (length (drop (?q * n) hs @ [h]))
       then \<lparr>batchSize = b, headers = [],
             merkleTrees = map (\<lambda>k. batchTree sha (take n (drop (k * n) hs))) [0 ..< ?q]
               @ [batchTree sha (drop (?q * n) hs @ [h])]\<rparr>
       else \<lparr>batchSize = b, headers = drop (?q * n) hs @ [h],
             merkleTrees = map (\<lambda>k. batchTree sha (take n (drop (k * n) hs))) [0 ..< ?q]\<rparr>)"
    unfolding addHeaders_snoc snoc.IH
    by (simp add: addHeader_def createMerkleTree_def batchTree_def Let_def)
  show ?case
  proof (cases "n \<le> Suc ?r")
    case True
    with n have r: "Suc ?r = n" using mod_less_divisor[of n "length hs"] by linarith
    have total: "length (hs @ [h]) = Suc ?q * n"
    proof -
      have "length (hs @ [h]) = ?q * n + Suc ?r" by simp
      also have "\<dots> = ?q * n + n" by (simp only: r)
      finally show ?thesis by simp
    qed
    then have q': "length (hs @ [h]) div n = Suc ?q"
      using n by simp
    have lastb: "take n (drop (?q * n) (hs @ [h])) = drop (?q * n) hs @ [h]"
      using qn len r by simp
    have e1: "drop (Suc ?q * n) (hs @ [h]) = []"
      using total by simp
    have "[0 ..< Suc ?q] = [0 ..< ?q] @ [?q]" by simp
    then have e2: "map (\<lambda>k. batchTree sha (take n (drop (k * n) (hs @ [h])))) [0 ..< Suc ?q]
        = map (\<lambda>k. batchTree sha (take n (drop (k * n) hs))) [0 ..< ?q]
          @ [batchTree sha (drop (?q * n) hs @ [h])]"
      by (simp only: map_append list.map trees lastb)
    from True have c: "(b \<le> int (length (drop (?q * n) hs @ [h]))) = True"
      by (simp only: cmp)
    show ?thesis
      by (simp only: step c if_True q' e1 e2)
  next
    case False
    then have "Suc ?r < n" by simp
    then have q': "length (hs @ [h]) div n = ?q"
      by (simp add: div_Suc mod_Suc)
    have e1: "drop (?q * n) (hs @ [h]) = drop (?q * n) hs @ [h]"
      using qn by simp
    from False have c: "(b \<le> int (length (drop (?q * n) hs @ [h]))) = False"
      by (simp only: cmp)
    show ?thesis
      by (simp only: step c if_False q' e1 trees)
  qed
qed

lemma dvd_Suc_iff: "0 < n \<Longrightarrow> (n dvd Suc m) = (n \<le> Suc (m mod n))"
proof -
  assume n: "0 < n"
  then have "m mod n < n" by simp
  then have "(Suc (m mod n) = n) = (n \<le> Suc (m mod n))" by linarith
  then show ?thesis by (simp add: dvd_eq_mod_eq_0 mod_Suc)
qed

lemma run_state_pos:
  assumes "1 \<le> b"
  shows "addHeaders sha (MerkleFactory_new b) hs =
     \<lparr>batchSize = b,
      headers = drop (length hs div nat b * nat b) hs,
      merkleTrees = map (\<lambda>k. batchTree sha (take (nat b) (drop (k * nat b) hs)))
                        [0 ..< length hs div nat b]\<rparr>"
proof -
  from assms have "nat (max 1 b) = nat b" by simp
  with run_state[of sha b hs] show ?thesis by simp
qed

lemma map_singleton_batches:
  "map (\<lambda>k. f (take (Suc 0) (drop k hs))) [0 ..< length hs] = map (\<lambda>h. f [h]) hs"
proof (rule nth_equalityI)
  show "length (map (\<lambda>k. f (take (Suc 0) (drop k hs))) [0 ..< length hs]) = length (map (\<lambda>h. f [h]) hs)"
    by simp
next
  fix i assume "i < length (map (\<lambda>k. f (take (Suc 0) (drop k hs))) [0 ..< length hs])"
  then have i: "i < length hs" by simp
  then have "take (Suc 0) (drop i hs) = [hs ! i]"
    by (metis Cons_nth_drop_Suc take0 take_Suc_Cons)
  with i show "map (\<lambda>k. f (take (Suc 0) (drop k hs))) [0 ..< length hs] ! i = map (\<lambda>h. f [h]) hs ! i"
    by simp
qed


section \<open>The batch accumulator\<close>

text \<open>
  Claim C6. For every batch size of at least 1 and every sequence of \<open>addHeader\<close> calls on a
  new factory: after \<open>n\<close> calls exactly \<open>n div batchSize\<close> trees are registered and the buffer
  holds \<open>n mod batchSize\<close> headers, so its length is below \<open>batchSize\<close> before and after each
  call; the next call registers a tree, built from the buffer and the new header, exactly
  when it is a \<open>batchSize\<close>-th call, and registers nothing otherwise.
\<close>

theorem addHeader_batches:
  assumes "1 \<le> b"
  shows "let s = addHeaders sha (MerkleFactory_new b) hs in
     length (merkleTrees s) = length hs div nat b \<and>
     length (headers s) = length hs mod nat b \<and>
     int (length (headers s)) < b \<and>
     int (length (headers (addHeader sha s h))) < b \<and>
     merkleTrees (addHeader sha s h) =
       merkleTrees s @ (if nat b dvd Suc (length hs) then [batchTree sha (headers s @ [h])] else [])"
proof -
  let ?n = "nat b"
  let ?s = "addHeaders sha (MerkleFactory_new b) hs"
  from assms have n: "0 < ?n" by simp
  note st = run_state_pos[OF assms, of sha hs]
  have c1: "length (merkleTrees ?s) = length hs div ?n"
    by (simp add: st)
  have c2: "length (headers ?s) = length hs mod ?n"
    by (simp add: st minus_div_mult_eq_mod)
  have c3: "int (length (headers ?s)) < b"
  proof -
    have "length hs mod ?n < ?n" using n by simp
    with c2 assms show ?thesis by linarith
  qed
  have c3': "int (length (headers (addHeader sha ?s h))) < b"
  proof -
    have "addHeader sha ?s h = addHeaders sha (MerkleFactory_new b) (hs @ [h])"
      by (simp only: addHeaders_snoc)
    moreover have "headers (addHeaders sha (MerkleFactory_new b) (hs @ [h]))
        = drop (length (hs @ [h]) div ?n * ?n) (hs @ [h])"
      by (subst run_state_pos[OF assms]) (simp only: MerkleFactory.select_convs)
    ultimately have "headers (addHeader sha ?s h)
        = drop (length (hs @ [h]) div ?n * ?n) (hs @ [h])"
      by (simp only:)
    then have "length (headers (addHeader sha ?s h)) = length (hs @ [h]) mod ?n"
      by (simp only: length_drop minus_div_mult_eq_mod)
    moreover have "length (hs @ [h]) mod ?n < ?n" using n by simp
    ultimately show ?thesis using assms by linarith
  qed
  have cmp: "(b \<le> int (length (headers ?s @ [h]))) = (?n dvd Suc (length hs))"
  proof -
    have "(b \<le> int (Suc (length hs mod ?n))) = (?n \<le> Suc (length hs mod ?n))"
      using assms by linarith
    then show ?thesis using c2 by (simp add: dvd_Suc_iff[OF n])
  qed
  have c4: "merkleTrees (addHeader sha ?s h) =
       merkleTrees ?s @ (if ?n dvd Suc (length hs) then [batchTree sha (headers ?s @ [h])] else [])"
  proof -
    have "batchSize ?s = b" by (simp add: st)
    then have "merkleTrees (addHeader sha ?s h) =
       merkleTrees ?s @ (if b \<le> int (length (headers ?s @ [h]))
          then [batchTree sha (headers ?s @ [h])] else [])"
      by (simp add: addHeader_def createMerkleTree_def batchTree_def Let_def)
    then show ?thesis by (simp only: cmp)
  qed
  from c1 c2 c3 c3' c4 show ?thesis by (simp only: Let_def simp_thms)
qed

theorem addHeader_batches_witness:
  "(1::int) \<le> 2 \<and>
   (let s = addHeaders toyDigest (MerkleFactory_new 2) [headerA, headerB, headerC] in
     length (merkleTrees s) = length [headerA, headerB, headerC] div nat 2 \<and>
     length (headers s) = length [headerA, headerB, headerC] mod nat 2 \<and>
     int (length (headers s)) < 2 \<and>
     int (length (headers (addHeader toyDigest s headerD))) < 2 \<and>
     merkleTrees (addHeader toyDigest s headerD) =
       merkleTrees s @ (if nat 2 dvd Suc (length [headerA, headerB, headerC])
                        then [batchTree toyDigest (headers s @ [headerD])] else []))"
proof -
  have h: "(1::int) \<le> 2" by simp
  from h addHeader_batches[OF h, of toyDigest "[headerA, headerB, headerC]" headerD]
  show ?thesis by (rule conjI)
qed


text \<open>
  Claim C4, as the code has it. The constructor makes no check: it stores any batch size and
  starts with an empty buffer and an empty registry. A factory made with a batch size of zero
  or less commits every header at once as a tree of one leaf, and its buffer is empty after
  every call of \<open>addHeader\<close>.
\<close>

theorem constructor_unchecked:
  assumes "b \<le> 0"
  shows "MerkleFactory_new b = \<lparr>batchSize = b, headers = [], merkleTrees = []\<rparr> \<and>
     addHeaders sha (MerkleFactory_new b) hs =
       \<lparr>batchSize = b, headers = [], merkleTrees = map (\<lambda>h. batchTree sha [h]) hs\<rparr>"
proof -
  from assms have n: "nat (max 1 b) = Suc 0" by simp
  have "addHeaders sha (MerkleFactory_new b) hs =
       \<lparr>batchSize = b, headers = [],
        merkleTrees = map (\<lambda>k. batchTree sha (take (Suc 0) (drop k hs))) [0 ..< length hs]\<rparr>"
    using run_state[of sha b hs] unfolding n by simp
  then show ?thesis
    by (simp only: map_singleton_batches MerkleFactory_new_def simp_thms)
qed

theorem constructor_unchecked_witness:
  "(-1::int) \<le> 0 \<and>
   MerkleFactory_new (-1) = \<lparr>batchSize = -1, headers = [], merkleTrees = []\<rparr> \<and>
   addHeaders toyDigest (MerkleFactory_new (-1)) [headerA, headerB] =
     \<lparr>batchSize = -1, headers = [],
      merkleTrees = map (\<lambda>h. batchTree toyDigest [h]) [headerA, headerB]\<rparr>"
proof -
  have h: "(-1::int) \<le> 0" by simp
  from h constructor_unchecked[OF h, of toyDigest "[headerA, headerB]"]
  show ?thesis by (rule conjI)
qed

text \<open>
  The claim C4 as the spec states it, that no factory with a batch size of zero or less can
  be made, fails: the constructor returns one for 0 and for -3.
\<close>

theorem constructor_accepts_nonpositive:
  "batchSize (MerkleFactory_new 0) \<le> 0 \<and> batchSize (MerkleFactory_new (-3)) \<le> 0"
  by (simp add: MerkleFactory_new_def)

section \<open>The leaves of a registered tree\<close>

lemma leaves_batchTree:
  "leaves (batchTree sha hs) = map (\<lambda>h. bufferify (sha (utf8 (hash h)))) hs"
  by (simp add: batchTree_def MerkleTree_new_def)

lemma proofLeaf_eq: "proofLeaf sha h = bufferify (sha (utf8 (hash h)))"
  by (simp add: proofLeaf_def hex_roundtrip)

text \<open>
  Claim C10. The leaf that \<open>generateProof\<close> and \<open>verifyProof\<close> compute for a header, a buffer
  decoded from the hex encoding of the digest of the header's \<open>hash\<close> field, is the value the
  tree holds for the digest word array handed to its constructor. So the leaves of the tree
  built by \<open>createMerkleTree\<close> are the proof-time leaves of the buffered headers, in order, and
  the leaf index lookup succeeds for exactly those values.
\<close>

theorem proof_leaf_is_stored_leaf:
  "proofLeaf sha h = bufferify (sha (utf8 (hash h)))
   \<and> leaves (last (merkleTrees (createMerkleTree sha s))) = map (proofLeaf sha) (headers s)
   \<and> (getLeafIndex (last (merkleTrees (createMerkleTree sha s))) (proofLeaf sha h) \<noteq> -1)
       = (proofLeaf sha h \<in> set (map (proofLeaf sha) (headers s)))"
proof -
  have l: "leaves (last (merkleTrees (createMerkleTree sha s))) = map (proofLeaf sha) (headers s)"
    by (simp add: createMerkleTree_def Let_def MerkleTree_new_def proofLeaf_eq)
  show ?thesis
    by (simp only: l getLeafIndex_absent simp_thms proofLeaf_eq)
qed

text \<open>
  Claim C8. For every batch size of at least 1, the leaves of the \<open>k\<close>-th registered tree are the
  digests of the \<open>hash\<close> fields of the headers of the \<open>k\<close>-th batch, in arrival order, and
  there are exactly \<open>batchSize\<close> of them. The digest is taken of the \<open>hash\<close> string alone: no
  other field of the header occurs.
\<close>

theorem registered_tree_leaves:
  assumes "1 \<le> b"
    and "k < length (merkleTrees (addHeaders sha (MerkleFactory_new b) hs))"
  shows "leaves (merkleTrees (addHeaders sha (MerkleFactory_new b) hs) ! k)
           = map (\<lambda>h. bufferify (sha (utf8 (hash h)))) (take (nat b) (drop (k * nat b) hs))
       \<and> length (leaves (merkleTrees (addHeaders sha (MerkleFactory_new b) hs) ! k)) = nat b"
proof -
  let ?n = "nat b"
  note st = run_state_pos[OF assms(1), of sha hs]
  from assms(2) have k: "k < length hs div ?n" by (simp add: st)
  have tree: "merkleTrees (addHeaders sha (MerkleFactory_new b) hs) ! k
      = batchTree sha (take ?n (drop (k * ?n) hs))"
    using k by (simp add: st)
  have "Suc k * ?n \<le> length hs div ?n * ?n" using k by (intro mult_le_mono1) simp
  also have "\<dots> \<le> length hs" by simp
  finally have "k * ?n + ?n \<le> length hs" by simp
  then have "length (take ?n (drop (k * ?n) hs)) = ?n" by simp
  then show ?thesis by (simp only: tree leaves_batchTree length_map simp_thms)
qed

theorem registered_tree_leaves_witness:
  "(1::int) \<le> 2
   \<and> 1 < length (merkleTrees (addHeaders toyDigest (MerkleFactory_new 2)
                      [headerA, headerB, headerC, headerD]))
   \<and> leaves (merkleTrees (addHeaders toyDigest (MerkleFactory_new 2)
                      [headerA, headerB, headerC, headerD]) ! 1)
       = map (\<lambda>h. bufferify (toyDigest (utf8 (hash h))))
           (take (nat 2) (drop (1 * nat 2) [headerA, headerB, headerC, headerD]))
   \<and> length (leaves (merkleTrees (addHeaders toyDigest (MerkleFactory_new 2)
                      [headerA, headerB, headerC, headerD]) ! 1)) = nat 2"
proof -
  have h1: "(1::int) \<le> 2" by simp
  have h2: "1 < length (merkleTrees (addHeaders toyDigest (MerkleFactory_new 2)
                      [headerA, headerB, headerC, headerD]))"
    by (simp add: addHeaders_def addHeader_def createMerkleTree_def MerkleFactory_new_def Let_def)
  from registered_tree_leaves[OF h1 h2] h1 h2 show ?thesis by simp
qed

section \<open>Determinism of the construction\<close>

text \<open>
  Claim C9. The root of the tree that \<open>createMerkleTree\<close> registers is a function of the ordered
  sequence of leaf values alone: two factories whose buffers give the same leaf values, however
  they differ in batch size, registry or the other fields of the headers, register trees with
  equal roots.
\<close>

theorem root_deterministic:
  assumes "map (\<lambda>h. bufferify (sha (utf8 (hash h)))) (headers s1)
         = map (\<lambda>h. bufferify (sha (utf8 (hash h)))) (headers s2)"
  shows "getRoot (last (merkleTrees (createMerkleTree sha s1)))
       = getRoot (last (merkleTrees (createMerkleTree sha s2)))"
proof -
  have "last (merkleTrees (createMerkleTree sha s)) =
      \<lparr>leaves = map (\<lambda>h. bufferify (sha (utf8 (hash h)))) (headers s),
       layers = createHashes sha (map (\<lambda>h. bufferify (sha (utf8 (hash h)))) (headers s))\<rparr>" for s
    by (simp add: createMerkleTree_def Let_def MerkleTree_new_def comp_def)
  with assms show ?thesis by simp
qed

theorem root_deterministic_witness:
  "getRoot (last (merkleTrees (createMerkleTree toyDigest
       \<lparr>batchSize = 2, headers = [headerA, headerB], merkleTrees = []\<rparr>)))
   = getRoot (last (merkleTrees (createMerkleTree toyDigest
       \<lparr>batchSize = 5, headers = [mkHeader 7 ''a'', mkHeader 8 ''b''],
        merkleTrees = [batchTree toyDigest [headerC]]\<rparr>)))"
proof -
  have "map (\<lambda>h. bufferify (toyDigest (utf8 (hash h))))
          (headers \<lparr>batchSize = 2, headers = [headerA, headerB], merkleTrees = []\<rparr>)
      = map (\<lambda>h. bufferify (toyDigest (utf8 (hash h))))
          (headers \<lparr>batchSize = 5, headers = [mkHeader 7 ''a'', mkHeader 8 ''b''],
                    merkleTrees = [batchTree toyDigest [headerC]]\<rparr>)"
    by (simp add: headerA_def headerB_def mkHeader_def)
  then show ?thesis by (rule root_deterministic)
qed

section \<open>Looking up the containing tree\<close>

lemma findTree_None:
  "(findTree s leaf = None) = (\<forall>t\<in>set (merkleTrees s). leaf \<notin> set (leaves t))"
  by (auto simp: findTree_def find_None_iff getLeafIndex_absent)

text \<open>
  Claim C5. For a header whose leaf value is in no registered tree, \<open>generateProof\<close> returns its
  not-found result, which in the code is the empty array, and \<open>verifyProof\<close> returns false for
  every proof.
\<close>

theorem absent_header:
  assumes "\<forall>t\<in>set (merkleTrees s). proofLeaf sha h \<notin> set (leaves t)"
  shows "generateProof sha s h = [] \<and> (\<forall>p. \<not> verifyProof sha s p h)"
proof -
  from assms have "findTree s (proofLeaf sha h) = None" by (simp only: findTree_None)
  then show ?thesis by (simp add: generateProof_def verifyProof_def Let_def)
qed

theorem absent_header_witness:
  "generateProof toyDigest (addHeaders toyDigest (MerkleFactory_new 1) [headerA]) headerB = []
   \<and> (\<forall>p. \<not> verifyProof toyDigest (addHeaders toyDigest (MerkleFactory_new 1) [headerA]) p headerB)"
proof -
  have "\<forall>t\<in>set (merkleTrees (addHeaders toyDigest (MerkleFactory_new 1) [headerA])).
      proofLeaf toyDigest headerB \<notin> set (leaves t)"
    by code_simp
  then show ?thesis by (rule absent_header)
qed

lemma merkleTrees_addHeader:
  "\<exists>extra. merkleTrees (addHeader sha s h) = merkleTrees s @ extra"
  by (simp add: addHeader_def createMerkleTree_def Let_def)

lemma merkleTrees_addHeaders:
  "\<exists>extra. merkleTrees (addHeaders sha s hs) = merkleTrees s @ extra"
proof (induction hs rule: rev_induct)
  case Nil
  show ?case by (simp add: addHeaders_def)
next
  case (snoc h hs)
  then obtain e1 where e1: "merkleTrees (addHeaders sha s hs) = merkleTrees s @ e1" by blast
  obtain e2 where "merkleTrees (addHeader sha (addHeaders sha s hs) h)
      = merkleTrees (addHeaders sha s hs) @ e2"
    using merkleTrees_addHeader by blast
  with e1 show ?case by (simp add: addHeaders_snoc)
qed

lemma findTree_first:
  assumes "merkleTrees s = pre @ t # post"
    and "\<forall>u\<in>set pre. leaf \<notin> set (leaves u)"
    and "leaf \<in> set (leaves t)"
  shows "findTree s leaf = Some t"
  unfolding findTree_def assms(1)
  by (rule find_first) (use assms(2,3) in \<open>simp_all add: getLeafIndex_absent\<close>)

text \<open>
  Claim C7. When the leaf of a header is in several registered trees, the lookup of
  \<open>generateProof\<close> and \<open>verifyProof\<close> yields the earliest registered one, whatever trees come
  after it and whatever headers are added later: the proof generated is the proof of the
  earliest tree and folds to its root, and verification is against its root.
\<close>

theorem earliest_tree_wins:
  assumes "merkleTrees s = pre @ MerkleTree_new sha ws # post"
    and "\<forall>u\<in>set pre. proofLeaf sha h \<notin> set (leaves u)"
    and "proofLeaf sha h \<in> set (leaves (MerkleTree_new sha ws))"
  shows "findTree (addHeaders sha s later) (proofLeaf sha h) = Some (MerkleTree_new sha ws)
     \<and> generateProof sha (addHeaders sha s later) h
         = getProof (MerkleTree_new sha ws) (proofLeaf sha h)
     \<and> foldProof sha (generateProof sha (addHeaders sha s later) h) (proofLeaf sha h)
         = getRoot (MerkleTree_new sha ws)
     \<and> verifyProof sha (addHeaders sha s later) p h
         = verify sha p (proofLeaf sha h) (getRoot (MerkleTree_new sha ws))"
proof -
  let ?t = "MerkleTree_new sha ws" and ?s = "addHeaders sha s later"
  obtain extra where "merkleTrees ?s = merkleTrees s @ extra"
    using merkleTrees_addHeaders by blast
  with assms(1) have "merkleTrees ?s = pre @ ?t # (post @ extra)" by simp
  from findTree_first[OF this assms(2,3)]
  have f: "findTree ?s (proofLeaf sha h) = Some ?t" .
  then have g: "generateProof sha ?s h = getProof ?t (proofLeaf sha h)"
    by (simp add: generateProof_def Let_def)
  have r: "foldProof sha (getProof ?t (proofLeaf sha h)) (proofLeaf sha h) = getRoot ?t"
    using tree_roundtrip[OF assms(3)] by (simp add: verify_def)
  have v: "verifyProof sha ?s p h = verify sha p (proofLeaf sha h) (getRoot ?t)"
    using f by (simp add: verifyProof_def Let_def)
  from f g r v show ?thesis by (simp only: simp_thms)
qed

theorem earliest_tree_wins_witness:
  "findTree (addHeaders toyDigest
               (addHeaders toyDigest (MerkleFactory_new 1) [headerB, headerA, headerA]) [headerC])
            (proofLeaf toyDigest headerA)
     = Some (MerkleTree_new toyDigest [toyDigest (utf8 ''a'')])
   \<and> generateProof toyDigest (addHeaders toyDigest
               (addHeaders toyDigest (MerkleFactory_new 1) [headerB, headerA, headerA]) [headerC])
         headerA
     = getProof (MerkleTree_new toyDigest [toyDigest (utf8 ''a'')]) (proofLeaf toyDigest headerA)
   \<and> foldProof toyDigest (generateProof toyDigest (addHeaders toyDigest
               (addHeaders toyDigest (MerkleFactory_new 1) [headerB, headerA, headerA]) [headerC])
         headerA) (proofLeaf toyDigest headerA)
     = getRoot (MerkleTree_new toyDigest [toyDigest (utf8 ''a'')])
   \<and> verifyProof toyDigest (addHeaders toyDigest
               (addHeaders toyDigest (MerkleFactory_new 1) [headerB, headerA, headerA]) [headerC])
         [] headerA
     = verify toyDigest [] (proofLeaf toyDigest headerA)
         (getRoot (MerkleTree_new toyDigest [toyDigest (utf8 ''a'')]))"
proof -
  have h1: "merkleTrees (addHeaders toyDigest (MerkleFactory_new 1) [headerB, headerA, headerA])
      = [MerkleTree_new toyDigest [toyDigest (utf8 ''b'')]]
        @ MerkleTree_new toyDigest [toyDigest (utf8 ''a'')]
        # [MerkleTree_new toyDigest [toyDigest (utf8 ''a'')]]"
    by (simp add: addHeaders_def addHeader_def createMerkleTree_def MerkleFactory_new_def Let_def
        headerA_def headerB_def mkHeader_def)
  have h2: "\<forall>u\<in>set [MerkleTree_new toyDigest [toyDigest (utf8 ''b'')]].
      proofLeaf toyDigest headerA \<notin> set (leaves u)"
    by code_simp
  have h3: "proofLeaf toyDigest headerA
      \<in> set (leaves (MerkleTree_new toyDigest [toyDigest (utf8 ''a'')]))"
    by code_simp
  from earliest_tree_wins[OF h1 h2 h3] show ?thesis .
qed

section \<open>Round trip of generation and verification\<close>

lemma in_full_batch:
  assumes "0 < n" and "h \<in> set (take (length hs div n * n) hs)"
  shows "\<exists>k < length hs div n. h \<in> set (take n (drop (k * n) hs))"
proof -
  let ?q = "length hs div n"
  have qn: "?q * n \<le> length hs" by simp
  from assms(2) obtain i where i: "i < ?q * n" and hi: "hs ! i = h"
    using qn by (auto simp: in_set_conv_nth)
  let ?k = "i div n"
  have k: "?k < ?q" using i assms(1) by (simp add: less_mult_imp_div_less)
  have split: "?k * n + i mod n = i" by simp
  have m: "i mod n < n" using assms(1) by simp
  have il: "i < length hs" using i qn by linarith
  have kl: "?k * n \<le> length hs" using split il by linarith
  have "take n (drop (?k * n) hs) ! (i mod n) = hs ! (?k * n + i mod n)"
    using m kl by (simp only: nth_take nth_drop)
  then have "take n (drop (?k * n) hs) ! (i mod n) = h" using hi by (simp only: split)
  moreover have "i mod n < length (take n (drop (?k * n) hs))"
  proof -
    have "i mod n < length hs - ?k * n" using il split by linarith
    with m show ?thesis by simp
  qed
  ultimately have "h \<in> set (take n (drop (?k * n) hs))"
    by (metis nth_mem)
  with k show ?thesis by blast
qed

text \<open>
  Claim C1. For every header that was among a full batch of \<open>batchSize\<close> headers, \<open>verifyProof\<close>
  accepts the proof that \<open>generateProof\<close> returns for it.
\<close>

theorem proof_roundtrip:
  assumes "1 \<le> b" and "h \<in> set (take (length hs div nat b * nat b) hs)"
  shows "verifyProof sha (addHeaders sha (MerkleFactory_new b) hs)
           (generateProof sha (addHeaders sha (MerkleFactory_new b) hs) h) h"
proof -
  let ?n = "nat b" and ?s = "addHeaders sha (MerkleFactory_new b) hs"
  let ?leaf = "proofLeaf sha h"
  from assms(1) have n: "0 < ?n" by simp
  note st = run_state_pos[OF assms(1), of sha hs]
  from in_full_batch[OF n assms(2)] obtain k
    where k: "k < length hs div ?n" and hk: "h \<in> set (take ?n (drop (k * ?n) hs))" by blast
  have "batchTree sha (take ?n (drop (k * ?n) hs)) \<in> set (merkleTrees ?s)"
    using k by (simp add: st)
  moreover have "?leaf \<in> set (leaves (batchTree sha (take ?n (drop (k * ?n) hs))))"
    using hk by (simp add: leaves_batchTree proofLeaf_eq)
  ultimately have "findTree ?s ?leaf \<noteq> None"
    using findTree_None[of ?s ?leaf] by blast
  then obtain t where t: "findTree ?s ?leaf = Some t" by blast
  then have tin: "t \<in> set (merkleTrees ?s)" and tl: "getLeafIndex t ?leaf \<noteq> -1"
    by (auto simp: findTree_def find_Some_iff)
  from tin obtain j where "t = batchTree sha (take ?n (drop (j * ?n) hs))"
    by (auto simp: st)
  then obtain ws where tw: "t = MerkleTree_new sha ws" by (auto simp: batchTree_def)
  from tl have "?leaf \<in> set (leaves t)" by (simp add: getLeafIndex_absent)
  with tw have "verify sha (getProof t ?leaf) ?leaf (getRoot t)"
    using tree_roundtrip by blast
  with t show ?thesis
    by (simp add: verifyProof_def generateProof_def Let_def)
qed

theorem proof_roundtrip_witness:
  "(1::int) \<le> 2 \<and> headerB \<in> set (take (length [headerA, headerB, headerC] div nat 2 * nat 2)
                                   [headerA, headerB, headerC])
   \<and> verifyProof toyDigest (addHeaders toyDigest (MerkleFactory_new 2) [headerA, headerB, headerC])
        (generateProof toyDigest
           (addHeaders toyDigest (MerkleFactory_new 2) [headerA, headerB, headerC]) headerB)
        headerB"
proof -
  have h1: "(1::int) \<le> 2" by simp
  have h2: "headerB \<in> set (take (length [headerA, headerB, headerC] div nat 2 * nat 2)
                                   [headerA, headerB, headerC])"
    by simp
  from h1 h2 proof_roundtrip[OF h1 h2, of toyDigest] show ?thesis by simp
qed

section \<open>The proof of a tree with one leaf\<close>

text \<open>
  Claim C3, as the code has it. \<open>generateProof\<close> returns a plain sequence with no tag. For a
  header found in a tree of exactly one leaf it is the empty sequence, which \<open>verifyProof\<close>
  accepts; for a header in no registered tree it is the empty sequence as well, which
  \<open>verifyProof\<close> rejects. The two results are equal, and only \<open>verifyProof\<close> tells the two
  headers apart.
\<close>

theorem single_leaf_proof_untagged:
  assumes "findTree s (proofLeaf sha h) = Some (MerkleTree_new sha [w])"
    and "findTree s (proofLeaf sha h') = None"
  shows "generateProof sha s h = [] \<and> verifyProof sha s [] h
       \<and> generateProof sha s h' = [] \<and> \<not> verifyProof sha s [] h'"
proof -
  let ?t = "MerkleTree_new sha [w]"
  have "getLeafIndex ?t (proofLeaf sha h) \<noteq> -1"
    using assms(1) by (auto simp: findTree_def find_Some_iff)
  then have leaf: "proofLeaf sha h = bufferify w"
    by (simp add: getLeafIndex_absent MerkleTree_new_def)
  have lay: "layers ?t = [[bufferify w]]"
    by (simp add: MerkleTree_new_def createHashes.simps)
  have p: "getProof ?t (proofLeaf sha h) = []"
    by (simp add: getProof_def lay split: option.splits)
  have r: "getRoot ?t = bufferify w"
    by (simp add: getRoot_def lay)
  from assms p r leaf show ?thesis
    by (simp add: generateProof_def verifyProof_def verify_def Let_def)
qed

theorem single_leaf_proof_untagged_witness:
  "generateProof toyDigest (addHeaders toyDigest (MerkleFactory_new 1) [headerA]) headerA = []
   \<and> verifyProof toyDigest (addHeaders toyDigest (MerkleFactory_new 1) [headerA]) [] headerA
   \<and> generateProof toyDigest (addHeaders toyDigest (MerkleFactory_new 1) [headerA]) headerB = []
   \<and> \<not> verifyProof toyDigest (addHeaders toyDigest (MerkleFactory_new 1) [headerA]) [] headerB"
proof -
  have h1: "findTree (addHeaders toyDigest (MerkleFactory_new 1) [headerA])
       (proofLeaf toyDigest headerA) = Some (MerkleTree_new toyDigest [toyDigest (utf8 ''a'')])"
    by code_simp
  have h2: "findTree (addHeaders toyDigest (MerkleFactory_new 1) [headerA])
       (proofLeaf toyDigest headerB) = None"
    by code_simp
  from single_leaf_proof_untagged[OF h1 h2] show ?thesis .
qed

text \<open>
  The claim C3 as the spec states it, that the result for a header of a one-leaf tree can be
  told from the result for an absent header, fails: with a batch size of 1 and header A
  committed, A is found, B is not, and \<open>generateProof\<close> returns the same value for both.
\<close>

theorem generateProof_untagged:
  "findTree (addHeaders toyDigest (MerkleFactory_new 1) [headerA]) (proofLeaf toyDigest headerA)
     = Some (MerkleTree_new toyDigest [toyDigest (utf8 ''a'')])
   \<and> findTree (addHeaders toyDigest (MerkleFactory_new 1) [headerA]) (proofLeaf toyDigest headerB)
     = None
   \<and> generateProof toyDigest (addHeaders toyDigest (MerkleFactory_new 1) [headerA]) headerA
     = generateProof toyDigest (addHeaders toyDigest (MerkleFactory_new 1) [headerA]) headerB"
  by code_simp

section \<open>Pairing and the odd node\<close>

lemma layers_step:
  "k + 1 < length (createHashes sha xs) \<Longrightarrow>
   createHashes sha xs ! (k + 1) = pairLevel sha (createHashes sha xs ! k)"
proof (induction sha xs arbitrary: k rule: createHashes.induct)
  case (1 sha nodes)
  show ?case
  proof (cases "length nodes \<le> 1")
    case True
    with 1(2) show ?thesis by (subst (asm) createHashes.simps) simp
  next
    case False
    then have ch: "createHashes sha nodes = nodes # createHashes sha (pairLevel sha nodes)"
      by (subst createHashes.simps) simp
    have hd0: "createHashes sha (pairLevel sha nodes) ! 0 = pairLevel sha nodes"
      by (subst createHashes.simps) simp
    show ?thesis
    proof (cases k)
      case 0
      then show ?thesis by (simp add: ch hd0)
    next
      case (Suc k')
      with 1(2) ch have "k' + 1 < length (createHashes sha (pairLevel sha nodes))" by simp
      from 1(1)[OF False this] Suc show ?thesis by (simp add: ch)
    qed
  qed
qed

lemma pairLevel_nth_parent:
  assumes "j < length (pairLevel sha L)"
  shows "pairLevel sha L ! j =
     (if 2 * j + 1 < length L then hashFn sha (L ! (2 * j) @ L ! (2 * j + 1))
      else hashFn sha (L ! (2 * j) @ L ! (2 * j)))"
proof -
  from assms have "2 * j < length L" by (simp add: length_pairLevel)
  from pairLevel_nth[OF this, of sha] show ?thesis by simp
qed

text \<open>
  Claim C2. Each level of a tree is obtained from the one below by pairing adjacent nodes from
  left to right, node \<open>2j\<close> with node \<open>2j + 1\<close>; the final node of a level of odd length is
  paired with itself. Verification follows the same policy: the proof extracted for any leaf
  index, the final one of an odd level included, folds to the root.
\<close>

theorem odd_node_duplicated:
  assumes "k + 1 < length (layers (MerkleTree_new sha ws))"
    and "j < length (layers (MerkleTree_new sha ws) ! (k + 1))"
    and "i < length ws"
  shows "(let L = layers (MerkleTree_new sha ws) ! k in
          layers (MerkleTree_new sha ws) ! (k + 1) ! j =
            (if 2 * j + 1 < length L then hashFn sha (L ! (2 * j) @ L ! (2 * j + 1))
             else hashFn sha (L ! (2 * j) @ L ! (2 * j))))
       \<and> verify sha (proofFrom (layers (MerkleTree_new sha ws)) i)
            (leaves (MerkleTree_new sha ws) ! i) (getRoot (MerkleTree_new sha ws))"
proof -
  let ?ls = "map bufferify ws"
  have lay: "layers (MerkleTree_new sha ws) = createHashes sha ?ls"
    by (simp add: MerkleTree_new_def)
  from assms(1) have st: "createHashes sha ?ls ! (k + 1) = pairLevel sha (createHashes sha ?ls ! k)"
    unfolding lay by (rule layers_step)
  from assms(2) have "j < length (pairLevel sha (createHashes sha ?ls ! k))"
    unfolding lay st .
  from pairLevel_nth_parent[OF this]
  have a: "(let L = layers (MerkleTree_new sha ws) ! k in
          layers (MerkleTree_new sha ws) ! (k + 1) ! j =
            (if 2 * j + 1 < length L then hashFn sha (L ! (2 * j) @ L ! (2 * j + 1))
             else hashFn sha (L ! (2 * j) @ L ! (2 * j))))"
    unfolding lay st Let_def .
  from assms(3) have ne: "ws \<noteq> []" by auto
  from assms(3) have "i < length ?ls" by simp
  from proof_folds_to_top[OF this, of sha]
  have b: "verify sha (proofFrom (layers (MerkleTree_new sha ws)) i)
            (leaves (MerkleTree_new sha ws) ! i) (getRoot (MerkleTree_new sha ws))"
    unfolding verify_def getRoot_new[OF ne] lay by (simp add: MerkleTree_new_def)
  from a b show ?thesis by (rule conjI)
qed

theorem odd_node_duplicated_witness:
  "(let L = layers (MerkleTree_new toyDigest
                [toyDigest (utf8 ''a''), toyDigest (utf8 ''b''), toyDigest (utf8 ''c'')]) ! 0 in
          layers (MerkleTree_new toyDigest
                [toyDigest (utf8 ''a''), toyDigest (utf8 ''b''), toyDigest (utf8 ''c'')]) ! (0 + 1) ! 1 =
            (if 2 * 1 + 1 < length L then hashFn toyDigest (L ! (2 * 1) @ L ! (2 * 1 + 1))
             else hashFn toyDigest (L ! (2 * 1) @ L ! (2 * 1))))
       \<and> verify toyDigest (proofFrom (layers (MerkleTree_new toyDigest
                [toyDigest (utf8 ''a''), toyDigest (utf8 ''b''), toyDigest (utf8 ''c'')])) 2)
            (leaves (MerkleTree_new toyDigest
                [toyDigest (utf8 ''a''), toyDigest (utf8 ''b''), toyDigest (utf8 ''c'')]) ! 2)
            (getRoot (MerkleTree_new toyDigest
                [toyDigest (utf8 ''a''), toyDigest (utf8 ''b''), toyDigest (utf8 ''c'')]))"
proof -
  let ?ws = "[toyDigest (utf8 ''a''), toyDigest (utf8 ''b''), toyDigest (utf8 ''c'')]"
  have h1: "0 + 1 < length (layers (MerkleTree_new toyDigest ?ws))" by code_simp
  have h2: "1 < length (layers (MerkleTree_new toyDigest ?ws) ! (0 + 1))" by code_simp
  have h3: "2 < length ?ws" by simp
  from odd_node_duplicated[OF h1 h2 h3] show ?thesis .
qed

end
